theory Spec2Isabelle
  imports Main "HOL-Library.Char_ord" "HOL-Library.List_Lexorder" "HOL-Library.Product_Lexorder"
begin

section \<open>Text: characters, stripping, lower-casing, searching\<close>

text \<open>
  A Python \<open>str\<close> is a sequence of code points. The model uses \<open>string\<close>; a \<open>char\<close>
  stands for the code point with the same number, so the texts covered are those over
  U+0000 .. U+00FF. The character tests below follow CPython's tables on that range.
\<close>

definition cp :: "char \<Rightarrow> nat" where
  "cp c = of_char c"

definition is_ascii_upper :: "char \<Rightarrow> bool" where
  "is_ascii_upper c = (65 \<le> cp c \<and> cp c \<le> 90)"

definition is_ascii_lower :: "char \<Rightarrow> bool" where
  "is_ascii_lower c = (97 \<le> cp c \<and> cp c \<le> 122)"

definition is_ascii_digit :: "char \<Rightarrow> bool" where
  "is_ascii_digit c = (48 \<le> cp c \<and> cp c \<le> 57)"

text \<open>\<open>str.isspace\<close>: the characters removed by \<open>str.strip()\<close> and matched by \<open>\s\<close>.\<close>

definition is_space :: "char \<Rightarrow> bool" where
  "is_space c = ((9 \<le> cp c \<and> cp c \<le> 13) \<or> (28 \<le> cp c \<and> cp c \<le> 32) \<or> cp c = 133 \<or> cp c = 160)"

text \<open>Upper-case letters, the ones \<open>str.lower()\<close> changes: A-Z, and U+00C0 .. U+00DE without U+00D7.\<close>

definition is_upper :: "char \<Rightarrow> bool" where
  "is_upper c = (is_ascii_upper c \<or> (192 \<le> cp c \<and> cp c \<le> 222 \<and> cp c \<noteq> 215))"

definition lower_char :: "char \<Rightarrow> char" where
  "lower_char c = (if is_upper c then char_of (cp c + 32) else c)"

definition lower :: "string \<Rightarrow> string" where
  "lower s = map lower_char s"

text \<open>
  \<open>\w\<close> of a \<open>str\<close> pattern: alphanumeric (\<open>str.isalnum\<close>) or underscore. Beyond ASCII that
  is U+00AA, U+00B2, U+00B3, U+00B5, U+00B9, U+00BA, U+00BC .. U+00BE and the letters
  U+00C0 .. U+00FF without U+00D7 and U+00F7.
\<close>

definition is_word :: "char \<Rightarrow> bool" where
  "is_word c = (is_ascii_upper c \<or> is_ascii_lower c \<or> is_ascii_digit c \<or> cp c = 95
     \<or> cp c \<in> {170, 178, 179, 181, 185, 186, 188, 189, 190}
     \<or> (192 \<le> cp c \<and> cp c \<noteq> 215 \<and> cp c \<noteq> 247))"

text \<open>\<open>s.strip(chars)\<close> with the character set given as a predicate.\<close>

definition strip_of :: "(char \<Rightarrow> bool) \<Rightarrow> string \<Rightarrow> string" where
  "strip_of P s = rev (dropWhile P (rev (dropWhile P s)))"

definition strip :: "string \<Rightarrow> string" where
  "strip s = strip_of is_space s"

text \<open>\<open>s.startswith(p)\<close>, \<open>s.endswith(p)\<close>, \<open>p in s\<close>, \<open>s.find(p)\<close> (\<open>None\<close> for -1).\<close>

definition startswith :: "string \<Rightarrow> string \<Rightarrow> bool" where
  "startswith s p = (take (length p) s = p)"

definition endswith :: "string \<Rightarrow> string \<Rightarrow> bool" where
  "endswith s p = (length p \<le> length s \<and> drop (length s - length p) s = p)"

fun find_from :: "nat \<Rightarrow> string \<Rightarrow> string \<Rightarrow> nat option" where
  "find_from i [] p = (if p = [] then Some i else None)"
| "find_from i (x # xs) p = (if startswith (x # xs) p then Some i else find_from (Suc i) xs p)"

definition find :: "string \<Rightarrow> string \<Rightarrow> nat option" where
  "find s p = find_from 0 s p"

definition contains :: "string \<Rightarrow> string \<Rightarrow> bool" where
  "contains s p = (find s p \<noteq> None)"

text \<open>\<open>s.replace(old, '')\<close> for a non-empty \<open>old\<close>: occurrences are removed left to right.\<close>

function remove_all :: "string \<Rightarrow> string \<Rightarrow> string" where
  "remove_all old s =
     (if s = [] \<or> old = [] then s
      else if startswith s old then remove_all old (drop (length old) s)
      else hd s # remove_all old (tl s))"
  by pat_completeness auto
termination
  by (relation "measure (\<lambda>(old, s). length s)") auto

declare remove_all.simps [simp del]

text \<open>\<open>s.split(sep, 1)\<close> for a one-character separator: the part before the first separator
  and, when there is one, the part after it. Reading index 1 of the result raises IndexError
  when the separator does not occur, which is \<open>None\<close> in \<open>split1_snd\<close>.\<close>

definition split1_fst :: "char \<Rightarrow> string \<Rightarrow> string" where
  "split1_fst sep s = takeWhile (\<lambda>c. c \<noteq> sep) s"

definition split1_snd :: "char \<Rightarrow> string \<Rightarrow> string option" where
  "split1_snd sep s = (case dropWhile (\<lambda>c. c \<noteq> sep) s of [] \<Rightarrow> None | _ # r \<Rightarrow> Some r)"

text \<open>\<open>s.split()\<close>: the maximal runs of non-space characters; \<open>' '.join\<close>.\<close>

function split_ws :: "string \<Rightarrow> string list" where
  "split_ws s =
     (case dropWhile is_space s of
        [] \<Rightarrow> []
      | x # xs \<Rightarrow> takeWhile (\<lambda>c. \<not> is_space c) (x # xs) # split_ws (dropWhile (\<lambda>c. \<not> is_space c) (x # xs)))"
  by pat_completeness auto
termination
proof (relation "measure length", goal_cases)
  case 1
  show ?case by simp
next
  case (2 s x xs)
  have a: "length (dropWhile is_space s) \<le> length s"
    by (rule length_dropWhile_le)
  have "\<not> is_space x"
    using 2 by (metis dropWhile_eq_Cons_conv)
  then have "length (dropWhile (\<lambda>c. \<not> is_space c) (x # xs)) \<le> length xs"
    by (simp add: length_dropWhile_le)
  with a 2 show ?case by simp
qed

declare split_ws.simps [simp del]

fun join_sp :: "string list \<Rightarrow> string" where
  "join_sp [] = []"
| "join_sp [w] = w"
| "join_sp (w # ws) = w @ CHR '' '' # join_sp ws"


section \<open>Regular expressions of the \<open>re\<close> module\<close>

text \<open>
  The two patterns of the program use literals, character classes with greedy bounded or
  unbounded repetition, optional groups and the word boundary \<open>\b\<close>. \<open>rmatch\<close> is the
  backtracking matcher: from a position, given as the character before it and the rest of
  the text, it lists the positions where a match of the expression can end, in the order
  in which the matcher tries them (a greedy repetition tries the longest run first, an
  optional group is tried before it is skipped). The match found is the first of the list.
\<close>

datatype regex =
    Lit char
  | Rep "char \<Rightarrow> bool" nat "nat option"
  | WordB
  | Seq regex regex
  | Opt regex

type_synonym pos = "char option \<times> string"

definition advance :: "nat \<Rightarrow> pos \<Rightarrow> pos" where
  "advance k ps = (if k = 0 then ps else (Some (snd ps ! (k - 1)), drop k (snd ps)))"

definition word_before :: "pos \<Rightarrow> bool" where
  "word_before ps = (case fst ps of None \<Rightarrow> False | Some c \<Rightarrow> is_word c)"

definition word_after :: "pos \<Rightarrow> bool" where
  "word_after ps = (case snd ps of [] \<Rightarrow> False | c # _ \<Rightarrow> is_word c)"

fun rmatch :: "regex \<Rightarrow> pos \<Rightarrow> pos list" where
  "rmatch (Lit c) ps =
     (case snd ps of [] \<Rightarrow> [] | x # xs \<Rightarrow> if x = c then [(Some x, xs)] else [])"
| "rmatch (Rep P lo hi) ps =
     (let run = length (takeWhile P (snd ps));
          n = (case hi of None \<Rightarrow> run | Some h \<Rightarrow> min run h)
      in map (\<lambda>k. advance k ps) (rev [lo ..< Suc n]))"
| "rmatch WordB ps = (if word_before ps \<noteq> word_after ps then [ps] else [])"
| "rmatch (Seq a b) ps = concat (map (rmatch b) (rmatch a ps))"
| "rmatch (Opt a) ps = rmatch a ps @ [ps]"

text \<open>
  \<open>finditer\<close>: the non-overlapping matches from left to right, as the matched strings
  (\<open>m.group(0)\<close>). After a match the scan goes on where the match ended; where there is no
  match it moves one character on. Both patterns of the program match at least five
  characters, so the case of an empty match (reported, then one character on) never arises.
\<close>

fun finditer :: "regex \<Rightarrow> char option \<Rightarrow> string \<Rightarrow> string list" where
  "finditer r p s =
     (case rmatch r (p, s) of
        [] \<Rightarrow> (case s of [] \<Rightarrow> [] | x # xs \<Rightarrow> finditer r (Some x) xs)
      | e # _ \<Rightarrow>
          if length (snd e) < length s
          then take (length s - length (snd e)) s # finditer r (fst e) (snd e)
          else [] # (case s of [] \<Rightarrow> [] | x # xs \<Rightarrow> finditer r (Some x) xs))"

declare finditer.simps [simp del]

section \<open>Pattern matchers and scope policy (app.py)\<close>

text \<open>
  \<open>EMAIL_RE = (?i)\b[A-Z0-9._%+\-]+@([A-Z0-9.\-]+\.[A-Z]{2,})\b\<close>. With the flag
  \<open>(?i)\<close> the range A-Z also matches a-z (and no other character below U+0100).
\<close>

definition is_ascii_letter :: "char \<Rightarrow> bool" where
  "is_ascii_letter c = (is_ascii_upper c \<or> is_ascii_lower c)"

definition email_local_char :: "char \<Rightarrow> bool" where
  "email_local_char c = (is_ascii_letter c \<or> is_ascii_digit c \<or> c \<in> set ''._%+-'')"

definition email_host_char :: "char \<Rightarrow> bool" where
  "email_host_char c = (is_ascii_letter c \<or> is_ascii_digit c \<or> c \<in> set ''.-'')"

definition EMAIL_RE :: regex where
  "EMAIL_RE =
     Seq WordB (Seq (Rep email_local_char 1 None) (Seq (Lit CHR ''@'')
       (Seq (Rep email_host_char 1 None) (Seq (Lit CHR ''.'')
         (Seq (Rep is_ascii_letter 2 None) WordB)))))"

text \<open>
  \<open>PHONE_RE = (?:(?:\+?\d{1,3}[\s\-\.]?)?(?:\(?\d{2,4}\)?[\s\-\.]?)?\d{3,4}[\s\-\.]?\d{3,4})\<close>
\<close>

definition phone_sep :: "char \<Rightarrow> bool" where
  "phone_sep c = (is_space c \<or> c \<in> set ''-.'')"

definition PHONE_RE :: regex where
  "PHONE_RE =
     Seq (Opt (Seq (Opt (Lit CHR ''+'')) (Seq (Rep is_ascii_digit 1 (Some 3)) (Rep phone_sep 0 (Some 1)))))
      (Seq (Opt (Seq (Opt (Lit CHR ''('')) (Seq (Rep is_ascii_digit 2 (Some 4))
              (Seq (Opt (Lit CHR '')'')) (Rep phone_sep 0 (Some 1))))))
        (Seq (Rep is_ascii_digit 3 (Some 4)) (Seq (Rep phone_sep 0 (Some 1)) (Rep is_ascii_digit 3 (Some 4)))))"

definition email_punct :: "char \<Rightarrow> bool" where
  "email_punct c = (c \<in> set (''.,;:!?'' @ [CHR 0x22, CHR 0x27] @ ''()[]{}<>''))"

definition normalize_email :: "string \<Rightarrow> string" where
  "normalize_email e = lower (strip_of email_punct (strip e))"

definition suffix_match :: "string \<Rightarrow> string \<Rightarrow> bool" where
  "suffix_match h d = (h = d \<or> endswith h (CHR ''.'' # d))"

text \<open>\<open>host\<close> may be \<open>None\<close> at the call (\<open>host or ""\<close>).\<close>

definition domain_allowed :: "string option \<Rightarrow> string set \<Rightarrow> bool" where
  "domain_allowed host allowed_suffixes =
     (let h = lower (case host of None \<Rightarrow> [] | Some x \<Rightarrow> x)
      in \<exists>d \<in> allowed_suffixes. suffix_match h d)"

definition email_matches_allowed :: "string \<Rightarrow> string set \<Rightarrow> bool" where
  "email_matches_allowed email allowed_suffixes =
     (case split1_snd CHR ''@'' email of
        None \<Rightarrow> False
      | Some r \<Rightarrow> (let dm = lower r in \<exists>d \<in> allowed_suffixes. suffix_match dm d))"

text \<open>
  \<open>extract_emails\<close>: the accepted candidates in the order of the text; the function's
  result is the set of them.
\<close>

definition email_hits :: "string \<Rightarrow> string set \<Rightarrow> string list" where
  "email_hits text allowed =
     (if text = [] then []
      else filter (\<lambda>email. email_matches_allowed email allowed)
             (map normalize_email (finditer EMAIL_RE None text)))"

definition extract_emails :: "string \<Rightarrow> string set \<Rightarrow> string set" where
  "extract_emails text allowed = set (email_hits text allowed)"

text \<open>
  \<open>extract_phones\<close>: \<open>findall\<close> gives the matched strings (the pattern has no capturing
  group); they are stripped, and kept when at least 8 digits remain after the two
  substitutions.
\<close>

definition phone_ok :: "string \<Rightarrow> bool" where
  "phone_ok p =
     (let p2 = filter (\<lambda>c. is_ascii_digit c \<or> c = CHR ''+'') p;
          digits = filter is_ascii_digit p2
      in length digits \<ge> 8)"

definition phone_hits :: "string \<Rightarrow> string list" where
  "phone_hits text =
     (if text = [] then []
      else filter phone_ok (map strip (finditer PHONE_RE None text)))"

definition extract_phones :: "string \<Rightarrow> string set" where
  "extract_phones text = set (phone_hits text)"


section \<open>Collaborators outside the program\<close>

text \<open>
  The program calls into \<open>urllib\<close>, \<open>requests\<close>, BeautifulSoup and pdfminer and reads the
  clock. What those calls return is not decided by the program, so it is a parameter of
  the model: the record \<open>world\<close>. Calls that reach the network or the clock take the
  number of such calls made so far, so a later call may be answered differently from an
  earlier one. A call that raises is \<open>None\<close>.
\<close>

record url_parts =
  scheme :: string
  netloc :: string

record response =
  status_code :: int
  resp_url :: string
  resp_content_type :: "string option"
  resp_text :: string
  resp_content :: string

text \<open>What the program reads of a parsed document: the stripped text of the first
  \<open>title\<close> element if there is one, \<open>get_text(separator=" ", strip=True)\<close>, and the
  \<open>href\<close> values of the \<open>a\<close> elements that have one, in document order.\<close>

record soup =
  soup_title :: "string option"
  soup_text :: string
  soup_hrefs :: "string list"

text \<open>
  What \<open>urlopen(origin + "/robots.txt")\<close> and the decoding of its body come to inside
  \<open>RobotFileParser.read\<close>: an \<open>HTTPError\<close> with its status code, any other exception, or
  lines that are parsed. The parsed rules are kept as the answer they give for a user
  agent and a URL (\<open>None\<close> when answering raises).
\<close>

datatype robots_reply =
    HTTPError int
  | OtherError
  | Parsed "string \<Rightarrow> string \<Rightarrow> bool option"

record world =
  urlparse :: "string \<Rightarrow> url_parts option"
  urljoin :: "string \<Rightarrow> string \<Rightarrow> string option"
  session_get :: "nat \<Rightarrow> string \<Rightarrow> response option"
  robots_urlopen :: "nat \<Rightarrow> string \<Rightarrow> robots_reply"
  BeautifulSoup :: "string \<Rightarrow> soup"
  pdf_extract_text :: "string \<Rightarrow> string option"
  PDF_OK :: bool
  utcnow :: "nat \<Rightarrow> string"
  random_choice :: nat
  set_order :: "string list \<Rightarrow> string list"
  csv_writable :: bool

text \<open>
  Iterating over a Python set visits each member once, in an order the program does not
  control. \<open>set_order\<close> proposes the order; a proposal that is not an enumeration of the
  set is replaced by the order of first occurrence.
\<close>

definition iter_set :: "world \<Rightarrow> string list \<Rightarrow> string list" where
  "iter_set w xs =
     (let l = set_order w xs in if distinct l \<and> set l = set xs then l else remdups xs)"

subsection \<open>\<open>urllib.robotparser.RobotFileParser\<close>\<close>

text \<open>
  The standard library's parser object, as far as \<open>read\<close> and \<open>can_fetch\<close> use it. A new
  object has both flags off and \<open>last_checked = 0\<close>; \<open>last_checked\<close> is set when a body is
  parsed. \<open>read\<close> handles an \<open>HTTPError\<close> itself (401 and 403 disallow all, any other 4xx
  allows all) and lets every other exception through. \<open>can_fetch\<close> answers \<open>False\<close> while
  \<open>last_checked\<close> is 0 and neither flag is set.
\<close>

record RobotFileParser =
  disallow_all :: bool
  allow_all :: bool
  last_checked :: bool
  entries :: "string \<Rightarrow> string \<Rightarrow> bool option"

definition new_RobotFileParser :: RobotFileParser where
  "new_RobotFileParser =
     \<lparr>disallow_all = False, allow_all = False, last_checked = False, entries = (\<lambda>ua url. Some True)\<rparr>"

definition rp_read :: "robots_reply \<Rightarrow> RobotFileParser \<Rightarrow> RobotFileParser option" where
  "rp_read reply rp =
     (case reply of
        HTTPError code \<Rightarrow>
          Some (if code = 401 \<or> code = 403 then rp\<lparr>disallow_all := True\<rparr>
                else if 400 \<le> code \<and> code < 500 then rp\<lparr>allow_all := True\<rparr>
                else rp)
      | OtherError \<Rightarrow> None
      | Parsed rules \<Rightarrow> Some (rp\<lparr>last_checked := True, entries := rules\<rparr>))"

definition rp_can_fetch :: "RobotFileParser \<Rightarrow> string \<Rightarrow> string \<Rightarrow> bool option" where
  "rp_can_fetch rp useragent url =
     (if disallow_all rp then Some False
      else if allow_all rp then Some True
      else if \<not> last_checked rp then Some False
      else entries rp useragent url)"

subsection \<open>\<open>urllib.parse\<close>: the host of a network location\<close>

text \<open>The \<open>hostname\<close> property of a parse result: the network location without user
  information and port, lower-cased up to a zone identifier; \<open>None\<close> when it is empty.\<close>

definition after_last :: "char \<Rightarrow> string \<Rightarrow> string" where
  "after_last sep s = rev (takeWhile (\<lambda>c. c \<noteq> sep) (rev s))"

definition hostname :: "string \<Rightarrow> string option" where
  "hostname nl =
     (let hostinfo = after_last CHR ''@'' nl;
          h = (case split1_snd CHR ''['' hostinfo of
                 Some bracketed \<Rightarrow> split1_fst CHR '']'' bracketed
               | None \<Rightarrow> split1_fst CHR '':'' hostinfo)
      in if h = [] then None
         else Some (lower (split1_fst CHR ''%'' h) @ dropWhile (\<lambda>c. c \<noteq> CHR ''%'') h))"

section \<open>Politeness gate (app.py)\<close>

type_synonym robots_cache = "string \<rightharpoonup> RobotFileParser"

definition load_robots :: "world \<Rightarrow> nat \<Rightarrow> string \<Rightarrow> robots_cache \<Rightarrow> RobotFileParser \<times> robots_cache" where
  "load_robots w t origin cache =
     (case cache origin of
        Some rp \<Rightarrow> (rp, cache)
      | None \<Rightarrow>
          (let rp0 = new_RobotFileParser;
               rp = (case rp_read (robots_urlopen w t (origin @ ''/robots.txt'')) rp0 of
                       Some rp1 \<Rightarrow> rp1
                     | None \<Rightarrow> rp0)
           in (rp, cache(origin \<mapsto> rp))))"

definition http_scheme :: "string \<Rightarrow> bool" where
  "http_scheme s = (s = ''http'' \<or> s = ''https'')"

text \<open>\<open>can_fetch\<close> returns the answer and the cache as it has left it; \<open>None\<close> when
  \<open>urlparse(url)\<close> raises.\<close>

definition can_fetch :: "world \<Rightarrow> nat \<Rightarrow> robots_cache \<Rightarrow> string \<Rightarrow> string \<Rightarrow> bool \<Rightarrow> (bool \<times> robots_cache) option" where
  "can_fetch w t cache url ua honor_robots =
     (if \<not> honor_robots then Some (True, cache)
      else case urlparse w url of
        None \<Rightarrow> None
      | Some p \<Rightarrow>
          if \<not> http_scheme (scheme p) \<or> netloc p = [] then Some (False, cache)
          else (let (rp, cache') = load_robots w t (scheme p @ ''://'' @ netloc p) cache
                in case rp_can_fetch rp ua url of
                     Some ok \<Rightarrow> Some (ok, cache')
                   | None \<Rightarrow> Some (True, cache')))"

section \<open>Content dispatch (app.py)\<close>

definition is_content_html :: "string \<Rightarrow> bool" where
  "is_content_html ct0 = (let ct = lower ct0 in contains ct ''text/html'' \<or> contains ct ''application/xhtml'')"

definition is_content_pdf :: "string \<Rightarrow> bool" where
  "is_content_pdf ct0 = (let ct = lower ct0 in contains ct ''application/pdf'' \<or> endswith ct ''/pdf'')"

definition title_of :: "soup \<Rightarrow> string" where
  "title_of sp = take 140 (case soup_title sp of Some t \<Rightarrow> t | None \<Rightarrow> [])"

definition SNIP_LEN :: nat where
  "SNIP_LEN = 160"

definition snippet_around :: "string \<Rightarrow> string \<Rightarrow> string" where
  "snippet_around text needle =
     (if text = [] then []
      else case find (lower text) (lower needle) of
        None \<Rightarrow> []
      | Some i \<Rightarrow>
          (let start = (if i < SNIP_LEN div 2 then 0 else i - SNIP_LEN div 2);
               stop = min (length text) (i + length needle + SNIP_LEN div 2)
           in join_sp (split_ws (take (stop - start) (drop start text)))))"

text \<open>\<open>handle_html\<close>: \<open>None\<close> when a \<open>urljoin\<close> raises.\<close>

definition mailto_text :: "string \<Rightarrow> string list \<Rightarrow> string" where
  "mailto_text page_text hs =
     foldl (\<lambda>acc href. acc @ '' '' @ split1_fst CHR ''?'' (remove_all ''mailto:'' href)) page_text
       (filter (\<lambda>href. startswith href ''mailto:'') hs)"

definition handle_html :: "world \<Rightarrow> string \<Rightarrow> string \<Rightarrow> int \<Rightarrow> int \<Rightarrow> (string \<times> string \<times> string list) option" where
  "handle_html w text base_url dep max_depth =
     (let sp = BeautifulSoup w text;
          page_title = title_of sp;
          page_text = mailto_text (soup_text sp) (soup_hrefs sp)
      in if dep < max_depth
         then map_option (\<lambda>out_links. (page_title, page_text, out_links))
                (those (map (urljoin w base_url) (soup_hrefs sp)))
         else Some (page_title, page_text, []))"

definition handle_pdf :: "world \<Rightarrow> string \<Rightarrow> string" where
  "handle_pdf w content =
     (if \<not> PDF_OK w then []
      else case pdf_extract_text w content of Some t \<Rightarrow> t | None \<Rightarrow> [])"


section \<open>Crawl orchestration and result aggregation (main in app.py)\<close>

text \<open>The parsed command line, with the names \<open>argparse\<close> gives the options.\<close>

record args =
  domains :: "string list"
  start_urls :: "string list"
  max_pages :: int
  depth :: int
  include_pdfs :: bool
  include_phones :: bool
  honor_robots :: string
  external_follow :: bool
  user_agent :: "string option"

text \<open>A row of the result: the dictionary with the keys \<open>type\<close>, \<open>value\<close>, \<open>domain\<close>,
  \<open>source_url\<close>, \<open>source_type\<close>, \<open>page_title\<close>, \<open>snippet\<close>, \<open>first_seen\<close>.\<close>

record finding =
  f_type :: string
  f_value :: string
  f_domain :: string
  f_source_url :: string
  f_source_type :: string
  f_page_title :: string
  f_snippet :: string
  f_first_seen :: string

text \<open>
  What a crawl does to the outside, in order: asking the politeness gate about a URL,
  calling \<open>s.get\<close> on a dequeued URL (with the depth of the work item), and appending a
  work item to the queue. The list of these events is kept beside the program's variables
  and is never read by the program.
\<close>

datatype event =
    RobotsAsk string
  | Get string int
  | Enqueued string int

text \<open>
  The variables of \<open>main\<close> that the loop changes. \<open>emails_best\<close> is a dictionary, which
  keeps its keys in the order of insertion. \<open>clock\<close> counts the calls made to the network
  and the clock; \<open>crashed\<close> is set when an exception leaves \<open>main\<close>.
\<close>

record crawl_state =
  queue :: "(string \<times> int) list"
  seen_urls :: "string set"
  results :: "finding list"
  emails_best :: "(string \<times> finding) list"
  pages :: int
  robots :: robots_cache
  clock :: nat
  trace :: "event list"
  crashed :: bool

definition UA_POOL :: "string list" where
  "UA_POOL =
     [''Mozilla/5.0 (Windows NT 10.0; Win64; x64) AppleWebKit/537.36 (KHTML, like Gecko) Chrome/127.0.0.0 Safari/537.36'',
      ''Mozilla/5.0 (Macintosh; Intel Mac OS X 13_6) AppleWebKit/605.1.15 (KHTML, like Gecko) Version/17.4 Safari/605.1.15'',
      ''Mozilla/5.0 (X11; Linux x86_64) AppleWebKit/537.36 (KHTML, like Gecko) Chrome/127.0.0.0 Safari/537.36'']"

text \<open>The \<open>User-Agent\<close> header that \<open>make_client\<close> sets.\<close>

definition client_ua :: "world \<Rightarrow> args \<Rightarrow> string" where
  "client_ua w a =
     (case user_agent a of
        Some u \<Rightarrow> if u \<noteq> [] then u else UA_POOL ! (random_choice w mod length UA_POOL)
      | None \<Rightarrow> UA_POOL ! (random_choice w mod length UA_POOL))"

definition allowed :: "args \<Rightarrow> string set" where
  "allowed a = set (map lower (filter (\<lambda>d. strip d \<noteq> []) (domains a)))"

definition honor :: "args \<Rightarrow> bool" where
  "honor a = (lower (honor_robots a) = ''true'')"

text \<open>Lines 182-188: the seeds that parse and have an http or https scheme.\<close>

definition seeds :: "world \<Rightarrow> args \<Rightarrow> string list" where
  "seeds w a =
     filter (\<lambda>u. case urlparse w u of None \<Rightarrow> False | Some pu \<Rightarrow> http_scheme (scheme pu)) (start_urls a)"

definition init_state :: "world \<Rightarrow> args \<Rightarrow> crawl_state" where
  "init_state w a =
     \<lparr>queue = map (\<lambda>u. (u, 0)) (seeds w a), seen_urls = {}, results = [], emails_best = [],
      pages = 0, robots = Map.empty, clock = 0,
      trace = map (\<lambda>u. Enqueued u 0) (seeds w a), crashed = False\<rparr>"

text \<open>Lines 230-235, the filter over the outbound links; \<open>None\<close> when \<open>urlparse\<close> raises.\<close>

fun link_filter :: "world \<Rightarrow> args \<Rightarrow> string set \<Rightarrow> string list \<Rightarrow> string list option" where
  "link_filter w a seen [] = Some []"
| "link_filter w a seen (nxt # rest) =
     (if nxt \<in> seen then link_filter w a seen rest
      else case urlparse w nxt of
        None \<Rightarrow> None
      | Some p \<Rightarrow>
          if \<not> http_scheme (scheme p) then link_filter w a seen rest
          else if external_follow a \<or> domain_allowed (Some (netloc p)) (allowed a)
          then map_option (\<lambda>fl. nxt # fl) (link_filter w a seen rest)
          else link_filter w a seen rest)"

definition filtered_links :: "world \<Rightarrow> args \<Rightarrow> string set \<Rightarrow> int \<Rightarrow> string list \<Rightarrow> string list option" where
  "filtered_links w a seen dep out_links =
     (if dep < depth a then link_filter w a seen out_links else Some [])"

text \<open>Lines 250-251: a record is stored only under a key that is not there yet.\<close>

definition store_first :: "(string \<times> finding) list \<Rightarrow> string \<Rightarrow> finding \<Rightarrow> (string \<times> finding) list" where
  "store_first eb email rec = (if email \<in> fst ` set eb then eb else eb @ [(email, rec)])"

definition source_type_of :: "string \<Rightarrow> string" where
  "source_type_of page_title = (if page_title = ''(PDF)'' then ''pdf'' else ''html'')"

text \<open>Lines 239-251, the loop over the accepted emails of a page. Building a record reads
  \<open>email.split("@",1)[1]\<close>, which raises when the email has no \<open>@\<close>.\<close>

fun record_emails :: "world \<Rightarrow> string \<Rightarrow> string \<Rightarrow> string \<Rightarrow> string list \<Rightarrow> crawl_state \<Rightarrow> crawl_state" where
  "record_emails w url page_title page_text [] st = st"
| "record_emails w url page_title page_text (email # rest) st =
     (case split1_snd CHR ''@'' email of
        None \<Rightarrow> st\<lparr>crashed := True\<rparr>
      | Some dm \<Rightarrow>
          (let rec = \<lparr>f_type = ''email'', f_value = email, f_domain = dm, f_source_url = url,
                      f_source_type = source_type_of page_title, f_page_title = page_title,
                      f_snippet = snippet_around page_text email,
                      f_first_seen = utcnow w (clock st)\<rparr>
           in record_emails w url page_title page_text rest
                (st\<lparr>emails_best := store_first (emails_best st) email rec, clock := Suc (clock st)\<rparr>)))"

text \<open>Lines 253-264, the loop over the phones of a page.\<close>

fun record_phones :: "world \<Rightarrow> string \<Rightarrow> string \<Rightarrow> string \<Rightarrow> string list \<Rightarrow> crawl_state \<Rightarrow> crawl_state" where
  "record_phones w url page_title page_text [] st = st"
| "record_phones w url page_title page_text (ph # rest) st =
     (let rec = \<lparr>f_type = ''phone'', f_value = ph, f_domain = [], f_source_url = url,
                 f_source_type = source_type_of page_title, f_page_title = page_title,
                 f_snippet = snippet_around page_text ph,
                 f_first_seen = utcnow w (clock st)\<rparr>
      in record_phones w url page_title page_text rest
           (st\<lparr>results := results st @ [rec], clock := Suc (clock st)\<rparr>))"

text \<open>Lines 216-223: dispatch on the content type.\<close>

datatype dispatched =
    Unsupported
  | Raised
  | Page string string "string list"

definition dispatch :: "world \<Rightarrow> args \<Rightarrow> response \<Rightarrow> int \<Rightarrow> dispatched" where
  "dispatch w a resp dep =
     (let ct = lower (case resp_content_type resp of Some c \<Rightarrow> c | None \<Rightarrow> [])
      in if is_content_html ct
         then (case handle_html w (resp_text resp) (resp_url resp) dep (depth a) of
                 None \<Rightarrow> Raised
               | Some (page_title, page_text, out_links) \<Rightarrow> Page page_title page_text out_links)
         else if include_pdfs a \<and> is_content_pdf ct
         then Page ''(PDF)'' (handle_pdf w (resp_content resp)) []
         else Unsupported)"

text \<open>Lines 211-264: what the loop body does with a response of status 200.\<close>

definition process_page :: "world \<Rightarrow> args \<Rightarrow> response \<Rightarrow> int \<Rightarrow> crawl_state \<Rightarrow> crawl_state" where
  "process_page w a resp dep st =
     (case urlparse w (resp_url resp) of
        None \<Rightarrow> st\<lparr>crashed := True\<rparr>
      | Some final \<Rightarrow>
         (case dispatch w a resp dep of
            Raised \<Rightarrow> st\<lparr>crashed := True\<rparr>
          | Unsupported \<Rightarrow> st
          | Page page_title page_text out_links \<Rightarrow>
              (let st1 = st\<lparr>pages := pages st + 1\<rparr>
               in case filtered_links w a (seen_urls st1) dep out_links of
                    None \<Rightarrow> st1\<lparr>crashed := True\<rparr>
                  | Some fl \<Rightarrow>
                      (let st2 = st1\<lparr>queue := queue st1 @ map (\<lambda>nxt. (nxt, dep + 1)) fl,
                                      trace := trace st1 @ map (\<lambda>nxt. Enqueued nxt (dep + 1)) fl\<rparr>;
                           st3 = record_emails w (resp_url resp) page_title page_text
                                   (iter_set w (email_hits page_text (allowed a))) st2
                       in if crashed st3 \<or> \<not> include_phones a then st3
                          else record_phones w (resp_url resp) page_title page_text
                                 (iter_set w (phone_hits page_text)) st3))))"

text \<open>Lines 199-209: the request and the status check.\<close>

definition fetch :: "world \<Rightarrow> args \<Rightarrow> string \<Rightarrow> int \<Rightarrow> crawl_state \<Rightarrow> crawl_state" where
  "fetch w a url0 dep st =
     (let st1 = st\<lparr>clock := Suc (clock st), trace := trace st @ [Get url0 dep]\<rparr>
      in case session_get w (clock st) url0 of
           None \<Rightarrow> st1
         | Some resp \<Rightarrow> if status_code resp \<noteq> 200 then st1 else process_page w a resp dep st1)"

text \<open>Lines 192-264: one turn of the \<open>while\<close> loop.\<close>

definition crawl_step :: "world \<Rightarrow> args \<Rightarrow> crawl_state \<Rightarrow> crawl_state" where
  "crawl_step w a st =
     (case queue st of
        [] \<Rightarrow> st
      | (url0, dep) # rest \<Rightarrow>
          (let st1 = st\<lparr>queue := rest\<rparr>
           in if url0 \<in> seen_urls st1 then st1
              else (let st2 = st1\<lparr>seen_urls := insert url0 (seen_urls st1)\<rparr>
                    in if honor a
                       then (case can_fetch w (clock st2) (robots st2) url0 (client_ua w a) True of
                               None \<Rightarrow> st2\<lparr>crashed := True\<rparr>
                             | Some (ok, cache) \<Rightarrow>
                                 (let st3 = st2\<lparr>robots := cache, clock := Suc (clock st2),
                                                 trace := trace st2 @ [RobotsAsk url0]\<rparr>
                                  in if \<not> ok then st3 else fetch w a url0 dep st3))
                       else fetch w a url0 dep st2)))"


text \<open>
  Lines 191-264: the \<open>while\<close> loop. A turn either counts a page or leaves the page count and
  shortens the queue, so the loop ends.
\<close>

lemma record_emails_frame:
  "queue (record_emails w u t x es st) = queue st \<and> pages (record_emails w u t x es st) = pages st"
  by (induction es arbitrary: st) (auto split: option.splits simp: Let_def)

lemma record_phones_frame:
  "queue (record_phones w u t x ps st) = queue st \<and> pages (record_phones w u t x ps st) = pages st"
  by (induction ps arbitrary: st) (auto simp: Let_def)

lemma process_page_progress:
  "pages (process_page w a resp dep st) = pages st + 1
   \<or> (pages (process_page w a resp dep st) = pages st \<and> queue (process_page w a resp dep st) = queue st)"
  by (auto simp: process_page_def Let_def record_emails_frame record_phones_frame
      split: option.splits dispatched.splits)

lemma fetch_progress:
  "pages (fetch w a u dep st) = pages st + 1
   \<or> (pages (fetch w a u dep st) = pages st \<and> queue (fetch w a u dep st) = queue st)"
  using process_page_progress [of w a _ dep "st\<lparr>clock := Suc (clock st), trace := trace st @ [Get u dep]\<rparr>"]
  by (auto simp: fetch_def Let_def split: option.splits)

lemma crawl_step_progress:
  assumes q: "queue st = (u, dep) # rest"
  shows "pages (crawl_step w a st) = pages st + 1
   \<or> (pages (crawl_step w a st) = pages st \<and> queue (crawl_step w a st) = rest)"
proof (cases "u \<in> seen_urls st")
  case True
  with q show ?thesis by (simp add: crawl_step_def)
next
  case False
  define st2 where "st2 = st\<lparr>queue := rest, seen_urls := insert u (seen_urls st)\<rparr>"
  have f: "\<And>s. queue s = rest \<Longrightarrow> pages s = pages st \<Longrightarrow>
     pages (fetch w a u dep s) = pages st + 1
     \<or> (pages (fetch w a u dep s) = pages st \<and> queue (fetch w a u dep s) = rest)"
    using fetch_progress by metis
  show ?thesis
  proof (cases "honor a")
    case False
    with \<open>u \<notin> seen_urls st\<close> q have "crawl_step w a st = fetch w a u dep st2"
      by (simp add: crawl_step_def st2_def)
    with f [of st2] show ?thesis by (simp add: st2_def)
  next
    case True
    show ?thesis
    proof (cases "can_fetch w (clock st) (robots st) u (client_ua w a) True")
      case None
      with True \<open>u \<notin> seen_urls st\<close> q show ?thesis by (simp add: crawl_step_def)
    next
      case (Some r)
      obtain ok cache where r: "r = (ok, cache)" by (cases r)
      define st3 where "st3 = st2\<lparr>robots := cache, clock := Suc (clock st2),
                                  trace := trace st2 @ [RobotsAsk u]\<rparr>"
      from Some r True \<open>u \<notin> seen_urls st\<close> q
      have "crawl_step w a st = (if \<not> ok then st3 else fetch w a u dep st3)"
        by (simp add: crawl_step_def st2_def st3_def)
      with f [of st3] show ?thesis by (simp add: st2_def st3_def)
    qed
  qed
qed

function crawl_loop :: "world \<Rightarrow> args \<Rightarrow> crawl_state \<Rightarrow> crawl_state" where
  "crawl_loop w a st =
     (if \<not> crashed st \<and> queue st \<noteq> [] \<and> pages st < max_pages a
      then crawl_loop w a (crawl_step w a st)
      else st)"
  by pat_completeness auto
termination
proof (relation "measures [\<lambda>(w, a, st). nat (max_pages a - pages st), \<lambda>(w, a, st). length (queue st)]", goal_cases)
  case 1
  show ?case by simp
next
  case (2 w a st)
  then obtain u dep rest where q: "queue st = (u, dep) # rest"
    by (cases "queue st") auto
  from crawl_step_progress [OF q, of w a] 2 q show ?case by auto
qed

declare crawl_loop.simps [simp del]

definition crawl :: "world \<Rightarrow> args \<Rightarrow> crawl_state" where
  "crawl w a = crawl_loop w a (init_state w a)"

text \<open>Lines 266-279: the email records join the results, and an empty result gets the
  \<open>no_hits\<close> row.\<close>

definition no_hits :: "string \<Rightarrow> finding" where
  "no_hits now =
     \<lparr>f_type = ''info'', f_value = ''no_hits'', f_domain = [], f_source_url = [],
      f_source_type = [], f_page_title = [],
      f_snippet = ''No emails/phones matched. Try --external-follow, --include-pdfs, --include-phones, a real browser UA, smaller depth, different seeds.'',
      f_first_seen = now\<rparr>"

definition final_results :: "world \<Rightarrow> crawl_state \<Rightarrow> finding list" where
  "final_results w st =
     (let rs = results st @ map snd (emails_best st)
      in if rs = [] then rs @ [no_hits (utcnow w (clock st))] else rs)"

text \<open>Line 287: the rows are written sorted by the rank of their type, then by value.\<close>

definition type_rank :: "string \<Rightarrow> nat" where
  "type_rank t = (if t = ''email'' then 0 else if t = ''phone'' then 1 else if t = ''info'' then 2 else 9)"

definition csv_rows :: "world \<Rightarrow> crawl_state \<Rightarrow> finding list" where
  "csv_rows w st = sort_key (\<lambda>r. (type_rank (f_type r), f_value r)) (final_results w st)"

text \<open>\<open>main\<close>: an exception that leaves the loop ends the program without output;
  otherwise the rows are written and the exit code is 0, or 2 when writing fails.\<close>

datatype outcome =
    Uncaught
  | Exit int "finding list option"

definition main :: "world \<Rightarrow> args \<Rightarrow> outcome" where
  "main w a =
     (let st = crawl w a
      in if crashed st then Uncaught
         else if csv_writable w then Exit 0 (Some (csv_rows w st))
         else Exit 2 None)"

section \<open>Observations used in the statements\<close>

text \<open>The characters a match of an expression can contain.\<close>

fun alphabet :: "regex \<Rightarrow> char \<Rightarrow> bool" where
  "alphabet (Lit c) x = (x = c)"
| "alphabet (Rep P lo hi) x = P x"
| "alphabet WordB x = False"
| "alphabet (Seq a b) x = (alphabet a x \<or> alphabet b x)"
| "alphabet (Opt a) x = alphabet a x"

text \<open>The URLs passed to \<open>s.get\<close>, and the URLs the politeness gate was asked about, in
  the order of the calls.\<close>

fun fetched :: "event list \<Rightarrow> string list" where
  "fetched [] = []"
| "fetched (Get u k # es) = u # fetched es"
| "fetched (e # es) = fetched es"

fun asked :: "event list \<Rightarrow> string list" where
  "asked [] = []"
| "asked (RobotsAsk u # es) = u # asked es"
| "asked (e # es) = asked es"

text \<open>
  An email record that is in scope: its value is its key, it is lower-case, its domain
  field is the part of the value after the first \<open>@\<close>, and the domain equals a scope entry
  or ends with a dot and a scope entry.
\<close>

definition email_record :: "string set \<Rightarrow> string \<Rightarrow> finding \<Rightarrow> bool" where
  "email_record S k r =
     (f_type r = ''email'' \<and> f_value r = k \<and> lower k = k
      \<and> split1_snd CHR ''@'' k = Some (f_domain r)
      \<and> (\<exists>d \<in> S. suffix_match (f_domain r) d))"

text \<open>The aggregator's collections only grow between two states: records are
  appended, the new email records have new, pairwise different keys and are in scope, and
  the new results are phone records.\<close>

definition grows :: "string set \<Rightarrow> crawl_state \<Rightarrow> crawl_state \<Rightarrow> bool" where
  "grows S s s' =
     (\<exists>ps qs. emails_best s' = emails_best s @ ps \<and> results s' = results s @ qs
        \<and> distinct (map fst ps) \<and> fst ` set ps \<inter> fst ` set (emails_best s) = {}
        \<and> (\<forall>(k, r) \<in> set ps. email_record S k r)
        \<and> (\<forall>r \<in> set qs. f_type r = ''phone''))"

section \<open>Properties of the pattern matchers\<close>

lemma advance_consumes:
  assumes "k \<le> length (takeWhile P (snd ps))"
  shows "\<exists>w. snd ps = w @ snd (advance k ps) \<and> (\<forall>c \<in> set w. P c)"
proof (intro exI conjI)
  show "snd ps = take k (snd ps) @ snd (advance k ps)"
    by (simp add: advance_def)
  have "take k (snd ps) = take k (takeWhile P (snd ps))"
    using assms by (metis append_eq_conv_conj takeWhile_dropWhile_id take_append take_all_iff append.right_neutral diff_is_0_eq' take_0)
  then show "\<forall>c \<in> set (take k (snd ps)). P c"
    by (metis in_set_takeD set_takeWhileD)
qed

lemma rmatch_consumes:
  "e \<in> set (rmatch r ps) \<Longrightarrow> \<exists>w. snd ps = w @ snd e \<and> (\<forall>c \<in> set w. alphabet r c)"
proof (induction r arbitrary: ps e)
  case (Lit c)
  then show ?case by (cases ps) (auto split: list.splits if_splits)
next
  case (Rep P lo hi)
  then obtain k where k: "e = advance k ps" "k \<le> length (takeWhile P (snd ps))"
    by (auto simp: Let_def split: option.splits)
  with advance_consumes [of k P ps] show ?case by simp
next
  case WordB
  then show ?case by (auto split: if_splits)
next
  case (Seq a b)
  then obtain m where m: "m \<in> set (rmatch a ps)" "e \<in> set (rmatch b m)" by auto
  from Seq.IH(1) [OF m(1)] obtain w1 where w1: "snd ps = w1 @ snd m" "\<forall>c \<in> set w1. alphabet a c" by blast
  from Seq.IH(2) [OF m(2)] obtain w2 where w2: "snd m = w2 @ snd e" "\<forall>c \<in> set w2. alphabet b c" by blast
  show ?case
    by (rule exI [of _ "w1 @ w2"]) (use w1 w2 in auto)
next
  case (Opt a)
  from Opt.prems have "e \<in> set (rmatch a ps) \<or> e = ps" by auto
  then show ?case
  proof
    assume "e \<in> set (rmatch a ps)"
    from Opt.IH [OF this] show ?thesis by simp
  next
    assume "e = ps"
    then show ?thesis by simp
  qed
qed

lemma finditer_alphabet:
  "x \<in> set (finditer r p s) \<Longrightarrow> c \<in> set x \<Longrightarrow> alphabet r c"
proof (induction r p s rule: finditer.induct)
  case (1 r p s)
  have unf: "finditer r p s =
     (case rmatch r (p, s) of
        [] \<Rightarrow> (case s of [] \<Rightarrow> [] | x # xs \<Rightarrow> finditer r (Some x) xs)
      | e # _ \<Rightarrow>
          if length (snd e) < length s
          then take (length s - length (snd e)) s # finditer r (fst e) (snd e)
          else [] # (case s of [] \<Rightarrow> [] | x # xs \<Rightarrow> finditer r (Some x) xs))"
    by (rule finditer.simps)
  note [simp del] = finditer.simps rmatch.simps
  show ?case
  proof (cases "rmatch r (p, s)")
    case Nil
    show ?thesis
    proof (cases s)
      case Nil
      with \<open>rmatch r (p, s) = []\<close> 1 unf show ?thesis by simp
    next
      case (Cons y ys)
      with \<open>rmatch r (p, s) = []\<close> unf have "finditer r p s = finditer r (Some y) ys" by simp
      with 1 Cons \<open>rmatch r (p, s) = []\<close> show ?thesis by simp
    qed
  next
    case (Cons e es)
    then have "e \<in> set (rmatch r (p, s))" by simp
    from rmatch_consumes [OF this] obtain w where w: "s = w @ snd e" "\<forall>c \<in> set w. alphabet r c" by auto
    then have tk: "take (length s - length (snd e)) s = w" by simp
    show ?thesis
    proof (cases "length (snd e) < length s")
      case True
      with unf Cons tk have "finditer r p s = w # finditer r (fst e) (snd e)" by simp
      with "1.prems" have "x = w \<or> x \<in> set (finditer r (fst e) (snd e))" by auto
      then show ?thesis
      proof
        assume "x = w" with w "1.prems" show ?thesis by simp
      next
        assume "x \<in> set (finditer r (fst e) (snd e))"
        with "1.IH"(2) [OF Cons True] "1.prems" show ?thesis by simp
      qed
    next
      case False
      show ?thesis
      proof (cases s)
        case Nil
        with unf Cons False 1 show ?thesis by simp
      next
        case (Cons y ys)
        with unf \<open>rmatch r (p, s) = e # es\<close> False have "finditer r p s = [] # finditer r (Some y) ys" by simp
        with "1.prems" have "x \<in> set (finditer r (Some y) ys)" by auto
        with "1.IH"(3) [OF \<open>rmatch r (p, s) = e # es\<close> False Cons] "1.prems" show ?thesis by simp
      qed
    qed
  qed
qed

lemma cp_lower_upper: "is_upper c \<Longrightarrow> cp (char_of (cp c + 32)) = cp c + 32"
  by (auto simp: is_upper_def is_ascii_upper_def cp_def)

lemma lower_char_idem: "lower_char (lower_char c) = lower_char c"
  using cp_lower_upper [of c] by (auto simp: lower_char_def is_upper_def is_ascii_upper_def)

lemma lower_char_space: "is_space (lower_char c) = is_space c"
  using cp_lower_upper [of c] by (auto simp: lower_char_def is_upper_def is_ascii_upper_def is_space_def)

subsection \<open>Stripping and lower-casing\<close>

lemma dropWhile_keep: "t = [] \<or> \<not> P (hd t) \<Longrightarrow> dropWhile P t = t"
  by (cases t) auto

lemma strip_of_fix:
  assumes "s = [] \<or> (\<not> P (hd s) \<and> \<not> P (last s))"
  shows "strip_of P s = s"
proof -
  from assms have 1: "dropWhile P s = s" by (intro dropWhile_keep) auto
  from assms have "rev s = [] \<or> \<not> P (hd (rev s))" by (auto simp: hd_rev)
  then have "dropWhile P (rev s) = rev s" by (rule dropWhile_keep)
  with 1 show ?thesis by (simp add: strip_of_def)
qed

lemma strip_of_none: "\<forall>c \<in> set s. \<not> P c \<Longrightarrow> strip_of P s = s"
  by (rule strip_of_fix) (cases s, auto)

lemma strip_of_ends:
  "strip_of P s = [] \<or> (\<not> P (hd (strip_of P s)) \<and> \<not> P (last (strip_of P s)))"
proof (cases "dropWhile P s")
  case Nil
  show ?thesis unfolding strip_of_def Nil by simp
next
  case (Cons y ys)
  then have y: "\<not> P y" by (metis dropWhile_eq_Cons_conv)
  define r where "r = dropWhile P (rev (y # ys))"
  have "y \<in> set (rev (y # ys))" by simp
  with y have rne: "r \<noteq> []" unfolding r_def by (metis dropWhile_eq_Nil_conv)
  then have hdr: "\<not> P (hd r)" unfolding r_def by (metis hd_dropWhile)
  have "rev (y # ys) = takeWhile P (rev (y # ys)) @ r" unfolding r_def by simp
  then have "last (rev (y # ys)) = last r" using rne by (metis last_appendR)
  then have "last r = y" by simp
  then have "hd (rev r) = y" using rne by (simp add: hd_rev)
  moreover have "last (rev r) = hd r" using rne by (simp add: last_rev)
  moreover have "strip_of P s = rev r" by (simp add: strip_of_def Cons r_def)
  ultimately show ?thesis using y hdr by simp
qed

lemma lower_char_punct: "email_punct (lower_char c) = email_punct c"
proof (cases "is_upper c")
  case False
  then show ?thesis by (simp add: lower_char_def)
next
  case True
  then have a: "cp (lower_char c) = cp c + 32" by (simp add: lower_char_def cp_lower_upper)
  have p: "\<And>d. email_punct d \<Longrightarrow> cp d \<in> {46, 44, 59, 58, 33, 63, 34, 39, 40, 41, 91, 93, 123, 125, 60, 62}"
    by (auto simp: email_punct_def cp_def)
  from True a have "\<not> email_punct (lower_char c)"
    using p [of "lower_char c"] by (auto simp: is_upper_def is_ascii_upper_def)
  moreover from True have "\<not> email_punct c"
    using p [of c] by (auto simp: is_upper_def is_ascii_upper_def)
  ultimately show ?thesis by simp
qed

lemma lower_idem: "lower (lower s) = lower s"
  by (simp add: lower_def lower_char_idem)

lemma normalize_email_idem_nospace:
  assumes "\<forall>c \<in> set x. \<not> is_space c"
  shows "normalize_email (normalize_email x) = normalize_email x"
proof -
  define u where "u = strip_of email_punct x"
  have sx: "strip x = x" using assms by (simp add: strip_def strip_of_none)
  then have n1: "normalize_email x = lower u" by (simp add: normalize_email_def u_def)
  have "set u \<subseteq> set x"
    unfolding u_def strip_of_def by (metis set_dropWhileD set_rev subsetI)
  with assms have "\<forall>c \<in> set (lower u). \<not> is_space c"
    by (auto simp: lower_def lower_char_space)
  then have s2: "strip (lower u) = lower u" by (simp add: strip_def strip_of_none)
  have "u = [] \<or> (\<not> email_punct (hd u) \<and> \<not> email_punct (last u))"
    unfolding u_def by (rule strip_of_ends)
  then have "lower u = [] \<or> (\<not> email_punct (hd (lower u)) \<and> \<not> email_punct (last (lower u)))"
    by (cases "u = []") (auto simp: lower_def hd_map last_map lower_char_punct)
  then have "strip_of email_punct (lower u) = lower u" by (rule strip_of_fix)
  with s2 n1 show ?thesis by (simp add: normalize_email_def lower_idem)
qed

lemma email_alphabet_nospace: "alphabet EMAIL_RE c \<Longrightarrow> \<not> is_space c"
  by (auto simp: EMAIL_RE_def email_local_char_def email_host_char_def is_ascii_letter_def
      is_ascii_upper_def is_ascii_lower_def is_ascii_digit_def is_space_def cp_def)

text \<open>
  C9. Email normalization is idempotent on matched candidates: for every string \<open>x\<close> that
  \<open>EMAIL_RE\<close> matches somewhere in a text (after any character \<open>p\<close>, or at the start of
  the text), normalising the normalised string gives the normalised string.
\<close>

theorem normalize_email_idempotent:
  "x \<in> set (finditer EMAIL_RE p text) \<Longrightarrow> normalize_email (normalize_email x) = normalize_email x"
  by (rule normalize_email_idem_nospace) (blast dest: finditer_alphabet email_alphabet_nospace)

theorem normalize_email_idempotent_witness:
  "''Jane.Doe@Mail.Example.COM'' \<in> set (finditer EMAIL_RE None ''<Jane.Doe@Mail.Example.COM>.'')
   \<and> normalize_email ''Jane.Doe@Mail.Example.COM'' = ''jane.doe@mail.example.com''
   \<and> normalize_email (normalize_email ''Jane.Doe@Mail.Example.COM'') = normalize_email ''Jane.Doe@Mail.Example.COM''"
proof -
  have h: "''Jane.Doe@Mail.Example.COM'' \<in> set (finditer EMAIL_RE None ''<Jane.Doe@Mail.Example.COM>.'')"
    by code_simp
  have n: "normalize_email ''Jane.Doe@Mail.Example.COM'' = ''jane.doe@mail.example.com''"
    by code_simp
  from h n normalize_email_idempotent [OF h] show ?thesis by simp
qed


subsection \<open>Scope of the extracted emails\<close>

lemma split1_snd_iff:
  "split1_snd c s = Some r \<longleftrightarrow> (\<exists>l. s = l @ c # r \<and> c \<notin> set l)"
proof
  assume a: "split1_snd c s = Some r"
  then obtain x where x: "dropWhile (\<lambda>y. y \<noteq> c) s = x # r"
    by (auto simp: split1_snd_def split: list.splits)
  then have "x = c" by (metis (mono_tags, lifting) hd_dropWhile list.sel(1) list.distinct(1))
  with x have "s = takeWhile (\<lambda>y. y \<noteq> c) s @ c # r"
    by (metis takeWhile_dropWhile_id)
  moreover have "c \<notin> set (takeWhile (\<lambda>y. y \<noteq> c) s)"
    by (metis (mono_tags, lifting) set_takeWhileD)
  ultimately show "\<exists>l. s = l @ c # r \<and> c \<notin> set l" by blast
next
  assume "\<exists>l. s = l @ c # r \<and> c \<notin> set l"
  then obtain l where l: "s = l @ c # r" "c \<notin> set l" by blast
  from l(2) have "dropWhile (\<lambda>y. y \<noteq> c) (l @ c # r) = dropWhile (\<lambda>y. y \<noteq> c) (c # r)"
    by (intro dropWhile_append2) auto
  with l(1) have "dropWhile (\<lambda>y. y \<noteq> c) s = c # r" by simp
  then show "split1_snd c s = Some r" by (simp add: split1_snd_def)
qed

lemma endswith_iff: "endswith h p \<longleftrightarrow> (\<exists>q. h = q @ p)"
proof
  assume "endswith h p"
  then have "h = take (length h - length p) h @ p"
    by (metis append_take_drop_id endswith_def)
  then show "\<exists>q. h = q @ p" ..
next
  assume "\<exists>q. h = q @ p"
  then show "endswith h p" by (auto simp: endswith_def)
qed

lemma suffix_match_iff: "suffix_match h d \<longleftrightarrow> (h = d \<or> (\<exists>q. h = q @ CHR ''.'' # d))"
  by (simp add: suffix_match_def endswith_iff)

lemma email_matches_allowed_iff:
  "email_matches_allowed e S \<longleftrightarrow>
     (\<exists>l dm. e = l @ CHR ''@'' # dm \<and> CHR ''@'' \<notin> set l
        \<and> (\<exists>d \<in> S. lower dm = d \<or> (\<exists>q. lower dm = q @ CHR ''.'' # d)))"
proof (cases "split1_snd CHR ''@'' e")
  case None
  then have "\<not> (\<exists>l dm. e = l @ CHR ''@'' # dm \<and> CHR ''@'' \<notin> set l)"
    using split1_snd_iff [of "CHR ''@''" e] by auto
  with None show ?thesis by (auto simp: email_matches_allowed_def)
next
  case (Some r)
  then obtain l where l: "e = l @ CHR ''@'' # r" "CHR ''@'' \<notin> set l"
    using split1_snd_iff by blast
  have u: "\<And>l' dm. e = l' @ CHR ''@'' # dm \<Longrightarrow> CHR ''@'' \<notin> set l' \<Longrightarrow> dm = r"
    using Some split1_snd_iff [of "CHR ''@''" e] by (metis option.inject)
  show ?thesis
  proof
    assume "email_matches_allowed e S"
    with Some have "\<exists>d \<in> S. suffix_match (lower r) d"
      by (simp add: email_matches_allowed_def)
    with l show "\<exists>l dm. e = l @ CHR ''@'' # dm \<and> CHR ''@'' \<notin> set l
        \<and> (\<exists>d \<in> S. lower dm = d \<or> (\<exists>q. lower dm = q @ CHR ''.'' # d))"
      unfolding suffix_match_iff by blast
  next
    assume "\<exists>l dm. e = l @ CHR ''@'' # dm \<and> CHR ''@'' \<notin> set l
        \<and> (\<exists>d \<in> S. lower dm = d \<or> (\<exists>q. lower dm = q @ CHR ''.'' # d))"
    then obtain l' dm where d: "e = l' @ CHR ''@'' # dm" "CHR ''@'' \<notin> set l'"
       "\<exists>d \<in> S. lower dm = d \<or> (\<exists>q. lower dm = q @ CHR ''.'' # d)" by blast
    from u [OF d(1,2)] d(3) have "\<exists>d \<in> S. suffix_match (lower r) d"
      unfolding suffix_match_iff by simp
    with Some show "email_matches_allowed e S" by (simp add: email_matches_allowed_def)
  qed
qed

lemma finditer_email_empty: "finditer EMAIL_RE None [] = []"
  by code_simp

text \<open>
  C1. For a scope set \<open>S\<close> of lower-cased suffixes and any text, \<open>extract_emails\<close> returns
  exactly the normalised candidates that have an \<open>@\<close> and whose domain, the part after
  the first \<open>@\<close>, equals a member of \<open>S\<close> or ends with a dot and a member of \<open>S\<close>, both
  sides lower-cased. A candidate without \<open>@\<close> is not in the result.
\<close>

theorem extract_emails_scoped:
  assumes "\<forall>d \<in> S. lower d = d"
  shows "extract_emails text S =
     {e. \<exists>m \<in> set (finditer EMAIL_RE None text). e = normalize_email m \<and>
         (\<exists>l dm. e = l @ CHR ''@'' # dm \<and> CHR ''@'' \<notin> set l \<and>
            (\<exists>d \<in> S. lower dm = lower d \<or> (\<exists>q. lower dm = q @ CHR ''.'' # lower d)))}"
proof -
  have low: "\<And>e. email_matches_allowed e S \<longleftrightarrow>
         (\<exists>l dm. e = l @ CHR ''@'' # dm \<and> CHR ''@'' \<notin> set l \<and>
            (\<exists>d \<in> S. lower dm = lower d \<or> (\<exists>q. lower dm = q @ CHR ''.'' # lower d)))"
    unfolding email_matches_allowed_iff using assms by (metis (no_types, lifting))
  show ?thesis
  proof (cases "text = []")
    case True
    then show ?thesis by (simp add: extract_emails_def email_hits_def finditer_email_empty)
  next
    case False
    then have "extract_emails text S =
       {e. \<exists>m \<in> set (finditer EMAIL_RE None text). e = normalize_email m \<and> email_matches_allowed e S}"
      by (auto simp: extract_emails_def email_hits_def)
    then show ?thesis unfolding low .
  qed
qed

theorem extract_emails_scoped_witness:
  "lower ''example.com'' = ''example.com''
   \<and> extract_emails ''Mail <Jane@Mail.Example.COM>, or bob@notexample.com.'' {''example.com''}
       = {''jane@mail.example.com''}"
proof -
  have h: "\<forall>d \<in> {''example.com''}. lower d = d" by code_simp
  have f: "finditer EMAIL_RE None ''Mail <Jane@Mail.Example.COM>, or bob@notexample.com.''
      = [''Jane@Mail.Example.COM'', ''bob@notexample.com'']" by code_simp
  have e: "extract_emails ''Mail <Jane@Mail.Example.COM>, or bob@notexample.com.'' {''example.com''}
       = {''jane@mail.example.com''}" by code_simp
  have l: "lower ''example.com'' = ''example.com''" by code_simp
  from l e extract_emails_scoped [OF h, of "''Mail <Jane@Mail.Example.COM>, or bob@notexample.com.''"]
  show ?thesis by simp
qed

section \<open>Properties of the crawl\<close>

lemma fetched_append: "fetched (xs @ ys) = fetched xs @ fetched ys"
  by (induction xs rule: fetched.induct) auto

lemma asked_append: "asked (xs @ ys) = asked xs @ asked ys"
  by (induction xs rule: asked.induct) auto

lemma fetched_enq: "fetched (map (\<lambda>n. Enqueued n k) fl) = []"
  by (induction fl) auto

lemma asked_enq: "asked (map (\<lambda>n. Enqueued n k) fl) = []"
  by (induction fl) auto

lemma crawl_loop_invariant:
  assumes "P st" and "\<And>s. P s \<Longrightarrow> queue s \<noteq> [] \<Longrightarrow> P (crawl_step w a s)"
  shows "P (crawl_loop w a st)"
  using assms
proof (induction w a st rule: crawl_loop.induct)
  case (1 w a st)
  show ?case
  proof (cases "\<not> crashed st \<and> queue st \<noteq> [] \<and> pages st < max_pages a")
    case True
    then have "crawl_loop w a st = crawl_loop w a (crawl_step w a st)"
      by (subst crawl_loop.simps) simp
    moreover have "P (crawl_step w a st)" using True "1.prems" by simp
    ultimately show ?thesis using "1.IH" [OF True] "1.prems"(2) by simp
  next
    case False
    then have "crawl_loop w a st = st" by (subst crawl_loop.simps) auto
    with 1 show ?thesis by simp
  qed
qed

lemma record_emails_same:
  "queue (record_emails w u t x es st) = queue st"
  "pages (record_emails w u t x es st) = pages st"
  "seen_urls (record_emails w u t x es st) = seen_urls st"
  "trace (record_emails w u t x es st) = trace st"
  "results (record_emails w u t x es st) = results st"
  by (induction es arbitrary: st; simp split: option.splits add: Let_def)+

lemma record_phones_same:
  "queue (record_phones w u t x ps st) = queue st"
  "pages (record_phones w u t x ps st) = pages st"
  "seen_urls (record_phones w u t x ps st) = seen_urls st"
  "trace (record_phones w u t x ps st) = trace st"
  "emails_best (record_phones w u t x ps st) = emails_best st"
  by (induction ps arbitrary: st; simp add: Let_def)+

text \<open>What the handling of a response does to the queue, the visited set and the trace.\<close>

lemma process_page_effect:
  "\<exists>fl. (fl \<noteq> [] \<longrightarrow> dep < depth a)
     \<and> queue (process_page w a resp dep st) = queue st @ map (\<lambda>nxt. (nxt, dep + 1)) fl
     \<and> trace (process_page w a resp dep st) = trace st @ map (\<lambda>nxt. Enqueued nxt (dep + 1)) fl
     \<and> seen_urls (process_page w a resp dep st) = seen_urls st"
proof (cases "urlparse w (resp_url resp)")
  case None
  then show ?thesis by (intro exI [of _ "[]"]) (simp add: process_page_def)
next
  case (Some final)
  show ?thesis
  proof (cases "dispatch w a resp dep")
    case Unsupported
    with Some show ?thesis by (intro exI [of _ "[]"]) (simp add: process_page_def)
  next
    case Raised
    with Some show ?thesis by (intro exI [of _ "[]"]) (simp add: process_page_def)
  next
    case (Page page_title page_text out_links)
    show ?thesis
    proof (cases "filtered_links w a (seen_urls st) dep out_links")
      case None
      with Some Page show ?thesis by (intro exI [of _ "[]"]) (simp add: process_page_def)
    next
      case fl: (Some fl)
      have d: "fl \<noteq> [] \<longrightarrow> dep < depth a"
        using fl by (auto simp: filtered_links_def split: if_splits)
      show ?thesis
        using Some Page fl d
        by (intro exI [of _ fl])
           (simp add: process_page_def Let_def record_emails_same record_phones_same)
    qed
  qed
qed

lemma fetch_effect:
  "\<exists>fl. (fl \<noteq> [] \<longrightarrow> dep < depth a)
     \<and> queue (fetch w a u dep st) = queue st @ map (\<lambda>nxt. (nxt, dep + 1)) fl
     \<and> trace (fetch w a u dep st) = trace st @ Get u dep # map (\<lambda>nxt. Enqueued nxt (dep + 1)) fl
     \<and> seen_urls (fetch w a u dep st) = seen_urls st"
proof -
  define st1 where "st1 = st\<lparr>clock := Suc (clock st), trace := trace st @ [Get u dep]\<rparr>"
  have e: "fetch w a u dep st = st1 \<or> (\<exists>resp. fetch w a u dep st = process_page w a resp dep st1)"
    by (auto simp: fetch_def Let_def st1_def split: option.splits)
  then show ?thesis
  proof
    assume "fetch w a u dep st = st1"
    then show ?thesis by (intro exI [of _ "[]"]) (simp add: st1_def)
  next
    assume "\<exists>resp. fetch w a u dep st = process_page w a resp dep st1"
    then obtain resp where r: "fetch w a u dep st = process_page w a resp dep st1" ..
    from process_page_effect [of dep a w resp st1] obtain fl where
      "fl \<noteq> [] \<longrightarrow> dep < depth a"
      "queue (process_page w a resp dep st1) = queue st1 @ map (\<lambda>nxt. (nxt, dep + 1)) fl"
      "trace (process_page w a resp dep st1) = trace st1 @ map (\<lambda>nxt. Enqueued nxt (dep + 1)) fl"
      "seen_urls (process_page w a resp dep st1) = seen_urls st1" by blast
    then show ?thesis unfolding r by (intro exI [of _ fl]) (simp add: st1_def)
  qed
qed

text \<open>One turn of the loop on a URL that has not been dequeued before.\<close>

lemma crawl_step_effect:
  assumes q: "queue st = (u, dep) # rest" and n: "u \<notin> seen_urls st"
  shows "\<exists>xs gs fl. (xs = [] \<or> xs = [RobotsAsk u]) \<and> (gs = [] \<or> gs = [Get u dep])
     \<and> (fl \<noteq> [] \<longrightarrow> dep < depth a)
     \<and> queue (crawl_step w a st) = rest @ map (\<lambda>nxt. (nxt, dep + 1)) fl
     \<and> trace (crawl_step w a st) = trace st @ xs @ gs @ map (\<lambda>nxt. Enqueued nxt (dep + 1)) fl
     \<and> seen_urls (crawl_step w a st) = insert u (seen_urls st)"
proof -
  define st2 where "st2 = st\<lparr>queue := rest, seen_urls := insert u (seen_urls st)\<rparr>"
  {
    fix s xs
    assume s: "queue s = rest" "seen_urls s = insert u (seen_urls st)" "trace s = trace st @ xs"
      "xs = [] \<or> xs = [RobotsAsk u]" "crawl_step w a st = fetch w a u dep s"
    from fetch_effect [of dep a w u s] obtain fl where
      "fl \<noteq> [] \<longrightarrow> dep < depth a"
      "queue (fetch w a u dep s) = queue s @ map (\<lambda>nxt. (nxt, dep + 1)) fl"
      "trace (fetch w a u dep s) = trace s @ Get u dep # map (\<lambda>nxt. Enqueued nxt (dep + 1)) fl"
      "seen_urls (fetch w a u dep s) = seen_urls s" by blast
    with s have ?thesis
      by (intro exI [of _ xs] exI [of _ "[Get u dep]"] exI [of _ fl]) simp
  }
  note f = this
  {
    fix s xs
    assume s: "queue s = rest" "seen_urls s = insert u (seen_urls st)" "trace s = trace st @ xs"
      "xs = [] \<or> xs = [RobotsAsk u]" "crawl_step w a st = s"
    then have ?thesis
      by (intro exI [of _ xs] exI [of _ "[]"] exI [of _ "[]"]) simp
  }
  note b = this
  show ?thesis
  proof (cases "honor a")
    case False
    with q n have "crawl_step w a st = fetch w a u dep st2"
      by (simp add: crawl_step_def st2_def)
    then show ?thesis by (intro f [of st2 "[]"]) (simp_all add: st2_def)
  next
    case True
    show ?thesis
    proof (cases "can_fetch w (clock st) (robots st) u (client_ua w a) True")
      case None
      with True q n have "crawl_step w a st = st2\<lparr>crashed := True\<rparr>"
        by (simp add: crawl_step_def st2_def)
      then show ?thesis by (intro b [of "st2\<lparr>crashed := True\<rparr>" "[]"]) (simp_all add: st2_def)
    next
      case (Some r)
      obtain ok cache where r: "r = (ok, cache)" by (cases r)
      define st3 where "st3 = st2\<lparr>robots := cache, clock := Suc (clock st2),
                                  trace := trace st2 @ [RobotsAsk u]\<rparr>"
      from Some r True q n
      have c: "crawl_step w a st = (if \<not> ok then st3 else fetch w a u dep st3)"
        by (simp add: crawl_step_def st2_def st3_def)
      show ?thesis
      proof (cases ok)
        case True
        with c show ?thesis by (intro f [of st3 "[RobotsAsk u]"]) (simp_all add: st2_def st3_def)
      next
        case False
        with c show ?thesis by (intro b [of st3 "[RobotsAsk u]"]) (simp_all add: st2_def st3_def)
      qed
    qed
  qed
qed

lemma crawl_step_seen:
  assumes "queue st = (u, dep) # rest" and "u \<in> seen_urls st"
  shows "crawl_step w a st = st\<lparr>queue := rest\<rparr>"
  using assms by (simp add: crawl_step_def)

subsection \<open>The aggregator only grows\<close>

lemma grows_same:
  "emails_best s' = emails_best s \<Longrightarrow> results s' = results s \<Longrightarrow> grows S s s'"
  unfolding grows_def by (intro exI [of _ "[]"]) simp

lemma grows_trans:
  assumes "grows S s1 s2" and "grows S s2 s3"
  shows "grows S s1 s3"
proof -
  from assms(1) obtain ps1 qs1 where 1: "emails_best s2 = emails_best s1 @ ps1"
    "results s2 = results s1 @ qs1" "distinct (map fst ps1)"
    "fst ` set ps1 \<inter> fst ` set (emails_best s1) = {}"
    "\<forall>(k, r) \<in> set ps1. email_record S k r" "\<forall>r \<in> set qs1. f_type r = ''phone''"
    unfolding grows_def by blast
  from assms(2) obtain ps2 qs2 where 2: "emails_best s3 = emails_best s2 @ ps2"
    "results s3 = results s2 @ qs2" "distinct (map fst ps2)"
    "fst ` set ps2 \<inter> fst ` set (emails_best s2) = {}"
    "\<forall>(k, r) \<in> set ps2. email_record S k r" "\<forall>r \<in> set qs2. f_type r = ''phone''"
    unfolding grows_def by blast
  show ?thesis
    unfolding grows_def
  proof (intro exI [of _ "ps1 @ ps2"] exI [of _ "qs1 @ qs2"] conjI)
    show "emails_best s3 = emails_best s1 @ ps1 @ ps2" using 1 2 by simp
    show "results s3 = results s1 @ qs1 @ qs2" using 1 2 by simp
    show "distinct (map fst (ps1 @ ps2))" using 1(1,3) 2(3,4) by auto
    show "fst ` set (ps1 @ ps2) \<inter> fst ` set (emails_best s1) = {}" using 1(1,4) 2(4) by auto
    show "\<forall>(k, r) \<in> set (ps1 @ ps2). email_record S k r" using 1(5) 2(5) by auto
    show "\<forall>r \<in> set (qs1 @ qs2). f_type r = ''phone''" using 1(6) 2(6) by auto
  qed
qed

lemma lower_suffix:
  assumes "lower k = k" and "split1_snd c k = Some dm"
  shows "lower dm = dm"
proof -
  from assms(2) obtain l where "k = l @ c # dm" using split1_snd_iff by blast
  with assms(1) show ?thesis by (simp add: lower_def)
qed

lemma hit_record:
  assumes "email_matches_allowed k S" and "lower k = k" and "split1_snd CHR ''@'' k = Some dm"
  shows "email_record S k
     \<lparr>f_type = ''email'', f_value = k, f_domain = dm, f_source_url = u, f_source_type = t,
      f_page_title = pt, f_snippet = sn, f_first_seen = fs\<rparr>"
proof -
  from assms(2,3) have "lower dm = dm" by (rule lower_suffix)
  with assms(1,3) have "\<exists>d \<in> S. suffix_match dm d"
    by (simp add: email_matches_allowed_def)
  with assms show ?thesis by (simp add: email_record_def)
qed

lemma record_emails_grows:
  assumes "\<forall>e \<in> set es. email_matches_allowed e S \<and> lower e = e"
  shows "grows S st (record_emails w u t x es st)"
  using assms
proof (induction es arbitrary: st)
  case Nil
  show ?case by (simp add: grows_same)
next
  case (Cons email rest)
  show ?case
  proof (cases "split1_snd CHR ''@'' email")
    case None
    then show ?thesis by (simp add: grows_same)
  next
    case (Some dm)
    define rec where "rec = \<lparr>f_type = ''email'', f_value = email, f_domain = dm, f_source_url = u,
                      f_source_type = source_type_of t, f_page_title = t,
                      f_snippet = snippet_around x email,
                      f_first_seen = utcnow w (clock st)\<rparr>"
    define st1 where "st1 = st\<lparr>emails_best := store_first (emails_best st) email rec, clock := Suc (clock st)\<rparr>"
    have r: "record_emails w u t x (email # rest) st = record_emails w u t x rest st1"
      using Some by (simp add: rec_def st1_def Let_def)
    have er: "email_record S email rec"
      unfolding rec_def using Cons.prems Some by (intro hit_record) auto
    have "grows S st st1"
    proof (cases "email \<in> fst ` set (emails_best st)")
      case True
      then show ?thesis by (intro grows_same) (simp_all add: st1_def store_first_def)
    next
      case False
      then show ?thesis
        unfolding grows_def using er
        by (intro exI [of _ "[(email, rec)]"] exI [of _ "[]"]) (simp add: st1_def store_first_def)
    qed
    moreover have "grows S st1 (record_emails w u t x rest st1)"
      using Cons.prems by (intro Cons.IH) simp
    ultimately show ?thesis unfolding r by (rule grows_trans)
  qed
qed

lemma record_phones_grows: "grows S st (record_phones w u t x ps st)"
proof (induction ps arbitrary: st)
  case Nil
  show ?case by (simp add: grows_same)
next
  case (Cons ph rest)
  define rec where "rec = \<lparr>f_type = ''phone'', f_value = ph, f_domain = [], f_source_url = u,
                 f_source_type = source_type_of t, f_page_title = t,
                 f_snippet = snippet_around x ph,
                 f_first_seen = utcnow w (clock st)\<rparr>"
  define st1 where "st1 = st\<lparr>results := results st @ [rec], clock := Suc (clock st)\<rparr>"
  have r: "record_phones w u t x (ph # rest) st = record_phones w u t x rest st1"
    by (simp add: rec_def st1_def Let_def)
  have "grows S st st1"
    unfolding grows_def
    by (intro exI [of _ "[]"] exI [of _ "[rec]"]) (simp add: st1_def rec_def)
  then show ?case unfolding r using Cons.IH [of st1] by (rule grows_trans)
qed

lemma iter_set_set: "set (iter_set w xs) = set xs"
  by (simp add: iter_set_def Let_def)

lemma normalize_email_lower: "lower (normalize_email m) = normalize_email m"
  by (simp add: normalize_email_def lower_def lower_char_idem)

lemma email_hits_good:
  "e \<in> set (email_hits text S) \<Longrightarrow> email_matches_allowed e S \<and> lower e = e"
  by (auto simp: email_hits_def normalize_email_lower split: if_splits)

lemma process_page_grows: "grows (allowed a) st (process_page w a resp dep st)"
proof (cases "urlparse w (resp_url resp)")
  case None
  then show ?thesis by (simp add: process_page_def grows_same)
next
  case (Some final)
  show ?thesis
  proof (cases "dispatch w a resp dep")
    case Unsupported
    with Some show ?thesis by (simp add: process_page_def grows_same)
  next
    case Raised
    with Some show ?thesis by (simp add: process_page_def grows_same)
  next
    case (Page page_title page_text out_links)
    show ?thesis
    proof (cases "filtered_links w a (seen_urls st) dep out_links")
      case None
      with Some Page show ?thesis by (simp add: process_page_def grows_same)
    next
      case fl: (Some fl)
      define st2 where "st2 = st\<lparr>pages := pages st + 1,
          queue := queue st @ map (\<lambda>nxt. (nxt, dep + 1)) fl,
          trace := trace st @ map (\<lambda>nxt. Enqueued nxt (dep + 1)) fl\<rparr>"
      define st3 where "st3 = record_emails w (resp_url resp) page_title page_text
                                   (iter_set w (email_hits page_text (allowed a))) st2"
      have p: "process_page w a resp dep st =
        (if crashed st3 \<or> \<not> include_phones a then st3
         else record_phones w (resp_url resp) page_title page_text (iter_set w (phone_hits page_text)) st3)"
        using Some Page fl by (simp add: process_page_def Let_def st2_def st3_def)
      have "grows (allowed a) st st2" by (intro grows_same) (simp_all add: st2_def)
      moreover have "grows (allowed a) st2 st3"
        unfolding st3_def by (intro record_emails_grows) (simp add: iter_set_set email_hits_good)
      ultimately have g3: "grows (allowed a) st st3" by (rule grows_trans)
      show ?thesis
        unfolding p using g3 grows_trans [OF g3 record_phones_grows] by simp
    qed
  qed
qed

lemma fetch_grows: "grows (allowed a) st (fetch w a u dep st)"
proof -
  define st1 where "st1 = st\<lparr>clock := Suc (clock st), trace := trace st @ [Get u dep]\<rparr>"
  have g: "grows (allowed a) st st1" by (intro grows_same) (simp_all add: st1_def)
  have "fetch w a u dep st = st1 \<or> (\<exists>resp. fetch w a u dep st = process_page w a resp dep st1)"
    by (auto simp: fetch_def Let_def st1_def split: option.splits)
  then show ?thesis
    using g grows_trans [OF g process_page_grows] by auto
qed

lemma crawl_step_grows: "grows (allowed a) st (crawl_step w a st)"
proof (cases "queue st")
  case Nil
  then show ?thesis by (simp add: crawl_step_def grows_same)
next
  case (Cons x rest)
  obtain u dep where x: "x = (u, dep)" by (cases x)
  show ?thesis
  proof (cases "u \<in> seen_urls st")
    case True
    with Cons x show ?thesis by (simp add: crawl_step_def grows_same)
  next
    case False
    define st2 where "st2 = st\<lparr>queue := rest, seen_urls := insert u (seen_urls st)\<rparr>"
    have g2: "grows (allowed a) st st2" by (intro grows_same) (simp_all add: st2_def)
    show ?thesis
    proof (cases "honor a")
      case False
      with \<open>u \<notin> seen_urls st\<close> Cons x have "crawl_step w a st = fetch w a u dep st2"
        by (simp add: crawl_step_def st2_def)
      with grows_trans [OF g2 fetch_grows] show ?thesis by simp
    next
      case True
      show ?thesis
      proof (cases "can_fetch w (clock st) (robots st) u (client_ua w a) True")
        case None
        with True \<open>u \<notin> seen_urls st\<close> Cons x show ?thesis
          by (simp add: crawl_step_def grows_same)
      next
        case (Some r)
        obtain ok cache where r: "r = (ok, cache)" by (cases r)
        define st3 where "st3 = st2\<lparr>robots := cache, clock := Suc (clock st2),
                                  trace := trace st2 @ [RobotsAsk u]\<rparr>"
        from Some r True \<open>u \<notin> seen_urls st\<close> Cons x
        have c: "crawl_step w a st = (if \<not> ok then st3 else fetch w a u dep st3)"
          by (simp add: crawl_step_def st2_def st3_def)
        have g3: "grows (allowed a) st st3" by (intro grows_same) (simp_all add: st2_def st3_def)
        show ?thesis unfolding c using g3 grows_trans [OF g3 fetch_grows] by simp
      qed
    qed
  qed
qed

lemma crawl_loop_grows: "grows (allowed a) st (crawl_loop w a st)"
proof (rule crawl_loop_invariant)
  show "grows (allowed a) st st" by (simp add: grows_same)
next
  fix s
  assume "grows (allowed a) st s"
  then show "grows (allowed a) st (crawl_step w a s)"
    using crawl_step_grows by (rule grows_trans)
qed

end
